theory Spec2Isabelle
  imports Main "HOL-Library.Word" "HOL-Library.Sublist"
begin

section \<open>Strings of the page script\<close>

text \<open>
  A JavaScript string is a sequence of UTF-16 code units. The script's template literals
  hold a code unit above 255 (the chevron U+25BE), so a code unit is a natural number here
  and a string is a list of them. \<open>str\<close> turns an ASCII literal into its code units.
\<close>

type_synonym js_string = "nat list"

definition str :: "string \<Rightarrow> js_string" where
  "str cs = map of_char cs"

section \<open>Escaping (site.js, lines 153-162)\<close>

text \<open>
  \<open>String.prototype.replaceAll\<close> with a string pattern: the occurrences of \<open>pat\<close> are
  found from left to right, the search resuming after each one; the empty pattern matches
  before every code unit and at the end. The replacement strings of the script hold no
  \<open>$\<close>, so none of them is a replacement pattern.
\<close>

fun replaceAll :: "js_string \<Rightarrow> js_string \<Rightarrow> js_string \<Rightarrow> js_string" where
  "replaceAll [] rep s = rep @ concat (map (\<lambda>c. c # rep) s)"
| "replaceAll (p # ps) rep [] = []"
| "replaceAll (p # ps) rep (c # cs) =
     (if prefix (p # ps) (c # cs)
      then rep @ replaceAll (p # ps) rep (drop (length ps) cs)
      else c # replaceAll (p # ps) rep cs)"

text \<open>The apostrophe is written by its code, \<open>0x27\<close>.\<close>

definition escapeHtml :: "js_string \<Rightarrow> js_string" where
  \<open>escapeHtml s =
     replaceAll (str [CHR 0x27]) (str ''&#039;'')
       (replaceAll (str ''"'') (str ''&quot;'')
         (replaceAll (str ''>'') (str ''&gt;'')
           (replaceAll (str ''<'') (str ''&lt;'')
             (replaceAll (str ''&'') (str ''&amp;'') s))))\<close>

definition escHtml :: "js_string \<Rightarrow> js_string" where
  "escHtml s = escapeHtml s"

definition escAttr :: "js_string \<Rightarrow> js_string" where
  "escAttr s = escapeHtml s"

text \<open>The five entities \<open>escapeHtml\<close> writes.\<close>

definition entities :: "js_string list" where
  "entities = [str ''&amp;'', str ''&lt;'', str ''&gt;'', str ''&quot;'', str ''&#039;'']"

text \<open>
  The inverse substitution, which the script does not have: each entity back to its
  character, the substitutions of \<open>escapeHtml\<close> undone one by one from the last to the
  first.
\<close>

definition unescapeHtml :: "js_string \<Rightarrow> js_string" where
  \<open>unescapeHtml s =
     replaceAll (str ''&amp;'') (str ''&'')
       (replaceAll (str ''&lt;'') (str ''<'')
         (replaceAll (str ''&gt;'') (str ''>'')
           (replaceAll (str ''&quot;'') (str ''"'')
             (replaceAll (str ''&#039;'') (str [CHR 0x27]) s))))\<close>

text \<open>
  What \<open>escapeHtml\<close> writes for one code unit, the five replacements being read as one
  pass over the string.
\<close>

definition escape_unit :: "nat \<Rightarrow> js_string" where
  \<open>escape_unit c =
     (if c = of_char CHR ''&'' then str ''&amp;''
      else if c = of_char CHR ''<'' then str ''&lt;''
      else if c = of_char CHR ''>'' then str ''&gt;''
      else if c = of_char CHR ''"'' then str ''&quot;''
      else if c = of_char (CHR 0x27) then str ''&#039;''
      else [c])\<close>

text \<open>
  For the proofs: every ampersand of the string is followed by a code unit that
  satisfies \<open>P\<close>.
\<close>

fun amp_next :: "(nat \<Rightarrow> bool) \<Rightarrow> js_string \<Rightarrow> bool" where
  "amp_next P [] = True"
| "amp_next P [x] = (x \<noteq> of_char CHR ''&'')"
| "amp_next P (x # y # t) = ((x = of_char CHR ''&'' \<longrightarrow> P y) \<and> amp_next P (y # t))"

section \<open>Table of contents: heading ids (site.js, lines 136-143)\<close>

text \<open>
  The regular expression classes of the script. \<open>\s\<close> is the white space and the line
  terminators of ECMAScript, which is also what \<open>trim\<close> removes; \<open>\w\<close> is
  \<open>[A-Za-z0-9_]\<close> (the expressions have no \<open>i\<close> or \<open>u\<close> flag).
\<close>

definition isSpace :: "nat \<Rightarrow> bool" where
  "isSpace c \<longleftrightarrow>
     c = 0x09 \<or> c = 0x0A \<or> c = 0x0B \<or> c = 0x0C \<or> c = 0x0D \<or> c = 0x20 \<or> c = 0xA0
     \<or> c = 0x1680 \<or> (0x2000 \<le> c \<and> c \<le> 0x200A) \<or> c = 0x2028 \<or> c = 0x2029
     \<or> c = 0x202F \<or> c = 0x205F \<or> c = 0x3000 \<or> c = 0xFEFF"

definition isWord :: "nat \<Rightarrow> bool" where
  "isWord c \<longleftrightarrow>
     (0x30 \<le> c \<and> c \<le> 0x39) \<or> (0x41 \<le> c \<and> c \<le> 0x5A) \<or> c = 0x5F
     \<or> (0x61 \<le> c \<and> c \<le> 0x7A)"

text \<open>
  \<open>toLowerCase\<close>. On a string of ASCII code units it maps \<open>A-Z\<close> to \<open>a-z\<close> and leaves
  the rest. On any other string it follows the Unicode case tables of the runtime, which
  are not part of the script: they are the parameter \<open>lower\<close>.
\<close>

definition toLowerCase :: "(js_string \<Rightarrow> js_string) \<Rightarrow> js_string \<Rightarrow> js_string" where
  "toLowerCase lower s =
     (if list_all (\<lambda>c. c < 128) s
      then map (\<lambda>c. if 0x41 \<le> c \<and> c \<le> 0x5A then c + 32 else c) s
      else lower s)"

definition trim :: "js_string \<Rightarrow> js_string" where
  "trim s = rev (dropWhile isSpace (rev (dropWhile isSpace s)))"

text \<open>
  \<open>s.replace(/[...]/g, rep)\<close> for a class of single code units: every code unit in the
  class \<open>P\<close> is replaced.
\<close>

definition replace_class :: "(nat \<Rightarrow> bool) \<Rightarrow> js_string \<Rightarrow> js_string \<Rightarrow> js_string" where
  "replace_class P rep s = concat (map (\<lambda>c. if P c then rep else [c]) s)"

text \<open>
  \<open>s.replace(/[...]+/g, rep)\<close>: the quantifier is greedy, so each match is a maximal run
  of code units in the class, and the search resumes after the run.
\<close>

function replace_runs :: "(nat \<Rightarrow> bool) \<Rightarrow> js_string \<Rightarrow> js_string \<Rightarrow> js_string" where
  "replace_runs P rep [] = []"
| "replace_runs P rep (c # cs) =
     (if P c then rep @ replace_runs P rep (dropWhile P cs)
      else c # replace_runs P rep cs)"
  by pat_completeness auto
termination
  by (relation "measure (\<lambda>(P, rep, s). length s)") (auto simp: length_dropWhile_le less_Suc_eq_le)

text \<open>
  Lines 138-142:
  \<^verbatim>\<open>h.textContent.toLowerCase().trim().replace(/[^\w\s-]/g, "").replace(/\s+/g, "-")\<close>
\<close>

definition slugify :: "(js_string \<Rightarrow> js_string) \<Rightarrow> js_string \<Rightarrow> js_string" where
  "slugify lower text =
     replace_runs isSpace (str ''-'')
       (replace_class (\<lambda>c. \<not> (isWord c \<or> isSpace c \<or> c = of_char CHR ''-'')) []
         (trim (toLowerCase lower text)))"

text \<open>
  A heading as the loop reads it: its \<open>id\<close> (the empty string when it has none) and its
  \<open>textContent\<close>. Lines 137-143: \<^verbatim>\<open>if (!h.id) { h.id = ... }\<close>.
\<close>

record heading =
  h_id :: js_string
  textContent :: js_string

definition assignId :: "(js_string \<Rightarrow> js_string) \<Rightarrow> heading \<Rightarrow> heading" where
  "assignId lower h = (if h_id h = [] then h\<lparr>h_id := slugify lower (textContent h)\<rparr> else h)"

text \<open>
  The slug in the words of the specification: the text lowercased, trimmed, the code units
  that are neither word characters, white space nor the hyphen removed, and each run of
  white space collapsed to one hyphen. \<open>collapse_spaces\<close> drops a white space that
  another one follows and turns the last of a run into the hyphen.
\<close>

fun collapse_spaces :: "js_string \<Rightarrow> js_string" where
  "collapse_spaces [] = []"
| "collapse_spaces [c] = (if isSpace c then str ''-'' else [c])"
| "collapse_spaces (c # d # t) =
     (if isSpace c then (if isSpace d then collapse_spaces (d # t) else str ''-'' @ collapse_spaces (d # t))
      else c # collapse_spaces (d # t))"

definition slug_spec :: "(js_string \<Rightarrow> js_string) \<Rightarrow> js_string \<Rightarrow> js_string" where
  "slug_spec lower text =
     collapse_spaces
       (filter (\<lambda>c. isWord c \<or> isSpace c \<or> c = of_char CHR ''-'')
         (trim (toLowerCase lower text)))"

section \<open>Accordion renderer (site.js, lines 73-128 and 164-168)\<close>

text \<open>
  A node of \<open>window.__NAV_TREE__\<close>. \<open>hasKids\<close>, which is
  \<open>node.children && node.children.length\<close>, holds when the list of children is not empty.
\<close>

datatype NavNode = NavNode (title: js_string) (url: js_string) (children: "NavNode list")

text \<open>\<open>String(n)\<close> for a natural number \<open>n\<close>: its decimal digits.\<close>

fun decimal :: "nat \<Rightarrow> js_string" where
  "decimal n = (if n < 10 then [48 + n] else decimal (n div 10) @ [48 + n mod 10])"

declare decimal.simps [simp del]

text \<open>
  Lines 164-168. \<open>h\<close> is a 32-bit integer after every \<open>h |= 0\<close>, so the loop is
  arithmetic on 32-bit words; \<open>Math.abs\<close> is taken on the signed value.
  \<^verbatim>\<open>for (let i=0;i<s.length;i++){ h = ((h<<5)-h) + s.charCodeAt(i); h |= 0; }\<close>
  \<^verbatim>\<open>return String(Math.abs(h));\<close>
\<close>

definition hash :: "js_string \<Rightarrow> js_string" where
  "hash s =
     decimal (nat \<bar>sint (foldl (\<lambda>h c. push_bit 5 h - h + of_nat c) (0 :: 32 word) s)\<bar>)"

definition indentClass :: "nat \<Rightarrow> js_string" where
  "indentClass depth = (if depth > 0 then str '' acc__child--indent'' else [])"

text \<open>
  Lines 108-128. The template literal is written piece by piece, one line of the script
  per line; \<open>0x25BE\<close> is the chevron.
\<close>

fun renderChild :: "NavNode \<Rightarrow> nat \<Rightarrow> js_string" where
  \<open>renderChild (NavNode t u cs) depth =
     (if cs = [] then
        str ''<a class="acc__child'' @ indentClass depth @ str ''" href="'' @ escAttr u @
        str ''">'' @ escHtml t @ str ''</a>''
      else
        let id = str ''acc_'' @ hash u;
            kids = concat (map (\<lambda>c. renderChild c (depth + 1)) cs)
        in
        str ''\<newline>'' @
        str ''      <div class="acc" data-acc="'' @ escAttr id @ str ''" aria-expanded="false">\<newline>'' @
        str ''        <button class="acc__top" type="button" data-acc-toggle="'' @ escAttr id @
        str ''">\<newline>'' @
        str ''          <span>'' @ escHtml t @ str ''</span>\<newline>'' @
        str ''          <span class="acc__chev">'' @ [0x25BE] @ str ''</span>\<newline>'' @
        str ''        </button>\<newline>'' @
        str ''        <div class="acc__panel">\<newline>'' @
        str ''          <a class="acc__child'' @ indentClass depth @ str ''" href="'' @ escAttr u @
        str ''">'' @ escHtml t @ str '' overview</a>\<newline>'' @
        str ''          '' @ kids @ str ''\<newline>'' @
        str ''        </div>\<newline>'' @
        str ''      </div>\<newline>'' @
        str ''    '')\<close>

text \<open>Lines 86-106.\<close>

fun renderNode :: "NavNode \<Rightarrow> nat \<Rightarrow> js_string" where
  \<open>renderNode (NavNode t u cs) depth =
     (if cs = [] then
        str ''<a class="drawer__leaf'' @ indentClass depth @ str ''" href="'' @ escAttr u @
        str ''">'' @ escHtml t @ str ''</a>''
      else
        let id = str ''acc_'' @ hash u;
            kids = concat (map (\<lambda>c. renderChild c (depth + 1)) cs)
        in
        str ''\<newline>'' @
        str ''      <section class="acc" data-acc="'' @ escAttr id @ str ''" aria-expanded="false">\<newline>'' @
        str ''        <button class="acc__top" type="button" data-acc-toggle="'' @ escAttr id @
        str ''">\<newline>'' @
        str ''          <span>'' @ escHtml t @ str ''</span>\<newline>'' @
        str ''          <span class="acc__chev">'' @ [0x25BE] @ str ''</span>\<newline>'' @
        str ''        </button>\<newline>'' @
        str ''        <div class="acc__panel">\<newline>'' @
        str ''          <a class="acc__child" href="'' @ escAttr u @
        str ''">'' @ escHtml t @ str '' overview</a>\<newline>'' @
        str ''          '' @ kids @ str ''\<newline>'' @
        str ''        </div>\<newline>'' @
        str ''      </section>\<newline>'' @
        str ''    '')\<close>

text \<open>Line 74: \<^verbatim>\<open>drawerNav.innerHTML = navTree.map((n) => renderNode(n, 0)).join("");\<close>\<close>

definition drawerNavHtml :: "NavNode list \<Rightarrow> js_string" where
  "drawerNavHtml navTree = concat (map (\<lambda>n. renderNode n 0) navTree)"

section \<open>Reading the rendered markup\<close>

text \<open>
  The tags of a piece of markup, in order: for every less-than sign, the text after it up
  to the next greater-than sign. In the renderer's output both signs only come from the
  templates, since everything interpolated is escaped.
\<close>

fun tags :: "js_string \<Rightarrow> js_string list" where
  "tags [] = []"
| "tags (c # cs) =
     (if c = of_char CHR ''<'' then takeWhile (\<lambda>x. x \<noteq> of_char CHR ''>'') cs # tags cs
      else tags cs)"

text \<open>
  A tag that opens a button; one that opens an element of class \<open>acc\<close>, the collapsible
  section; one that opens a panel.
\<close>

definition is_button :: "js_string \<Rightarrow> bool" where
  "is_button tg \<longleftrightarrow> prefix (str ''button'') tg"

definition is_acc :: "js_string \<Rightarrow> bool" where
  \<open>is_acc tg \<longleftrightarrow> prefix (str ''section class="acc" '') tg \<or> prefix (str ''div class="acc" '') tg\<close>

definition is_panel :: "js_string \<Rightarrow> bool" where
  \<open>is_panel tg \<longleftrightarrow> prefix (str ''div class="acc__panel"'') tg\<close>

text \<open>
  The branch nodes of a tree, a node before its descendants and the children from first to
  last, and the identifier the renderer derives for a node.
\<close>

fun branch_nodes :: "NavNode \<Rightarrow> NavNode list" where
  "branch_nodes (NavNode t u cs) =
     (if cs = [] then [] else NavNode t u cs # concat (map branch_nodes cs))"

definition acc_id :: "NavNode \<Rightarrow> js_string" where
  "acc_id n = str ''acc_'' @ hash (url n)"

text \<open>The tags the claims speak of, as texts.\<close>

definition toggle_tag :: "js_string \<Rightarrow> js_string" where
  \<open>toggle_tag i = str ''button class="acc__top" type="button" data-acc-toggle="'' @ i @ str ''"''\<close>

definition section_tag :: "js_string \<Rightarrow> js_string" where
  \<open>section_tag i = str ''section class="acc" data-acc="'' @ i @ str ''" aria-expanded="false"''\<close>

definition div_tag :: "js_string \<Rightarrow> js_string" where
  \<open>div_tag i = str ''div class="acc" data-acc="'' @ i @ str ''" aria-expanded="false"''\<close>

definition panel_tag :: js_string where
  \<open>panel_tag = str ''div class="acc__panel"''\<close>

definition link_tag :: "js_string \<Rightarrow> js_string \<Rightarrow> js_string" where
  \<open>link_tag cls u = str ''a class="'' @ cls @ str ''" href="'' @ escAttr u @ str ''"''\<close>

text \<open>For the proofs: all the tags of a rendered node.\<close>

fun child_tags :: "NavNode \<Rightarrow> nat \<Rightarrow> js_string list" where
  \<open>child_tags (NavNode t u cs) depth =
     (if cs = [] then [link_tag (str ''acc__child'' @ indentClass depth) u, str ''/a'']
      else
        [div_tag (str ''acc_'' @ hash u), toggle_tag (str ''acc_'' @ hash u),
         str ''span'', str ''/span'', str ''span class="acc__chev"'', str ''/span'', str ''/button'',
         panel_tag, link_tag (str ''acc__child'' @ indentClass depth) u, str ''/a'']
        @ concat (map (\<lambda>c. child_tags c (depth + 1)) cs)
        @ [str ''/div'', str ''/div''])\<close>

fun node_tags :: "NavNode \<Rightarrow> nat \<Rightarrow> js_string list" where
  \<open>node_tags (NavNode t u cs) depth =
     (if cs = [] then [link_tag (str ''drawer__leaf'' @ indentClass depth) u, str ''/a'']
      else
        [section_tag (str ''acc_'' @ hash u), toggle_tag (str ''acc_'' @ hash u),
         str ''span'', str ''/span'', str ''span class="acc__chev"'', str ''/span'', str ''/button'',
         panel_tag, link_tag (str ''acc__child'') u, str ''/a'']
        @ concat (map (\<lambda>c. child_tags c (depth + 1)) cs)
        @ [str ''/div'', str ''/section''])\<close>

section \<open>Theme (site.js, lines 17-29)\<close>

text \<open>
  The two places the theme lives in: the \<open>data-theme\<close> attribute of the document element
  (\<open>None\<close> when the attribute is absent, what \<open>getAttribute\<close> reports as null) and the
  entry \<open>theme\<close> of localStorage (\<open>None\<close> when \<open>getItem\<close> returns null).
\<close>

record theme_state =
  data_theme :: "js_string option"
  stored_theme :: "js_string option"

text \<open>
  Lines 19-20:
  \<^verbatim>\<open>const saved = localStorage.getItem("theme");\<close>
  \<^verbatim>\<open>if (saved === "light" || saved === "dark") root.setAttribute("data-theme", saved);\<close>
\<close>

definition applyStoredTheme :: "theme_state \<Rightarrow> theme_state" where
  "applyStoredTheme s =
     (let saved = stored_theme s
      in if saved = Some (str ''light'') \<or> saved = Some (str ''dark'')
         then s\<lparr>data_theme := saved\<rparr>
         else s)"

text \<open>
  Lines 23-28, the click handler of the theme toggle:
  \<^verbatim>\<open>const current = root.getAttribute("data-theme");\<close>
  \<^verbatim>\<open>const next = current === "dark" ? "light" : "dark";\<close>
  \<^verbatim>\<open>root.setAttribute("data-theme", next); localStorage.setItem("theme", next);\<close>
\<close>

definition toggleTheme :: "theme_state \<Rightarrow> theme_state" where
  "toggleTheme s =
     (let current = data_theme s;
          next = (if current = Some (str ''dark'') then str ''light'' else str ''dark'')
      in s\<lparr>data_theme := Some next, stored_theme := Some next\<rparr>)"

text \<open>
  The theme the toggle itself reads off the attribute: \<open>dark\<close> when the attribute is
  exactly \<open>"dark"\<close>, \<open>light\<close> for every other value and for the absent attribute.
\<close>

definition activeTheme :: "theme_state \<Rightarrow> js_string" where
  "activeTheme s = (if data_theme s = Some (str ''dark'') then str ''dark'' else str ''light'')"

definition noTheme :: theme_state where
  "noTheme = \<lparr>data_theme = None, stored_theme = None\<rparr>"

section \<open>Drawer (site.js, lines 31-71)\<close>

text \<open>
  Each of \<open>menuToggle\<close>, \<open>menuClose\<close> and \<open>drawer\<close> is what \<open>getElementById\<close> found:
  the element or null. The script tests them before every use, so their presence is part of
  the model.
\<close>

record drawer_dom =
  has_menuToggle :: bool
  has_menuClose :: bool
  has_drawer :: bool

text \<open>
  What the drawer code reads and writes: the \<open>hidden\<close> attribute of the drawer, the
  \<open>aria-expanded\<close> attribute of the menu toggle (\<open>None\<close>: not set) and
  \<open>document.body.style.overflow\<close>.
\<close>

record drawer_state =
  drawer_hidden :: bool
  toggle_expanded :: "js_string option"
  body_overflow :: js_string

definition openDrawer :: "drawer_dom \<Rightarrow> drawer_state \<Rightarrow> drawer_state" where
  "openDrawer d s =
     (if \<not> has_drawer d then s
      else s\<lparr>drawer_hidden := False,
             toggle_expanded := (if has_menuToggle d then Some (str ''true'') else toggle_expanded s),
             body_overflow := str ''hidden''\<rparr>)"

definition closeDrawer :: "drawer_dom \<Rightarrow> drawer_state \<Rightarrow> drawer_state" where
  "closeDrawer d s =
     (if \<not> has_drawer d then s
      else s\<lparr>drawer_hidden := True,
             toggle_expanded := (if has_menuToggle d then Some (str ''false'') else toggle_expanded s),
             body_overflow := []\<rparr>)"

text \<open>
  The events the drawer listens to. \<open>DrawerClick t\<close> is a click that reaches the drawer's
  listener, \<open>t\<close> telling whether \<open>e.target === drawer\<close>; \<open>DrawerKeyDown k\<close> carries
  \<open>e.key\<close>; \<open>Resize w\<close> is a resize event at a viewport \<open>w\<close> CSS pixels wide, where
  \<open>matchMedia("(min-width: 981px)").matches\<close> is \<open>981 \<le> w\<close>.
\<close>

datatype drawer_event =
  MenuToggleClick
  | MenuCloseClick
  | DrawerClick bool
  | DrawerKeyDown js_string
  | Resize nat

fun drawer_step :: "drawer_dom \<Rightarrow> drawer_event \<Rightarrow> drawer_state \<Rightarrow> drawer_state" where
  "drawer_step d MenuToggleClick s =
     (if has_menuToggle d \<and> has_drawer d
      then (if drawer_hidden s then openDrawer d s else closeDrawer d s)
      else s)"
| "drawer_step d MenuCloseClick s = (if has_menuClose d then closeDrawer d s else s)"
| "drawer_step d (DrawerClick on_drawer) s =
     (if has_drawer d then (if on_drawer then closeDrawer d s else s) else s)"
| "drawer_step d (DrawerKeyDown k) s =
     (if has_drawer d
      then (if k = str ''Escape'' \<and> \<not> drawer_hidden s then closeDrawer d s else s)
      else s)"
| "drawer_step d (Resize w) s = (if 981 \<le> w then closeDrawer d s else s)"

text \<open>A page with all three elements, and the drawer's two states on it.\<close>

definition page :: drawer_dom where
  "page = \<lparr>has_menuToggle = True, has_menuClose = True, has_drawer = True\<rparr>"

definition opened :: drawer_state where
  "opened = \<lparr>drawer_hidden = False, toggle_expanded = Some (str ''true''),
     body_overflow = str ''hidden''\<rparr>"

definition closed :: drawer_state where
  "closed = \<lparr>drawer_hidden = True, toggle_expanded = Some (str ''false''), body_overflow = []\<rparr>"

section \<open>Desktop hover menu (site.js, lines 172-262)\<close>

text \<open>
  A menu item is one element of \<open>menuItems\<close>, named by its index. The state is the two
  variables \<open>active\<close> and \<open>closeTimer\<close> of the script, the \<open>is-open\<close> class of every item,
  and what the handlers read from the browser: the pending timeouts (a map from the id
  \<open>setTimeout\<close> returned to the time the timeout is due; the only callback the script ever
  schedules is \<open>doClose\<close>), the id the next \<open>setTimeout\<close> returns, the clock in
  milliseconds, and \<open>mqDesktop.matches\<close>.
\<close>

type_synonym item = nat

record menu_state =
  is_open :: "item \<Rightarrow> bool"
  active :: "item option"
  closeTimer :: "nat option"
  timers :: "nat \<rightharpoonup> nat"
  next_timer :: nat
  now :: nat
  desktop :: bool

definition clearTimeout :: "nat \<Rightarrow> menu_state \<Rightarrow> menu_state" where
  "clearTimeout t s = s\<lparr>timers := (timers s)(t := None)\<rparr>"

definition setTimeout :: "nat \<Rightarrow> menu_state \<Rightarrow> nat \<times> menu_state" where
  "setTimeout delay s =
     (next_timer s,
      s\<lparr>timers := (timers s)(next_timer s \<mapsto> now s + delay), next_timer := Suc (next_timer s)\<rparr>)"

text \<open>\<open>if (closeTimer)\<close> is false for null and for the number 0.\<close>

definition clearCloseTimer :: "menu_state \<Rightarrow> menu_state" where
  "clearCloseTimer s =
     (case closeTimer s of
        None \<Rightarrow> s
      | Some t \<Rightarrow> if t = 0 then s else (clearTimeout t s)\<lparr>closeTimer := None\<rparr>)"

text \<open>The closure \<open>doClose\<close> of \<open>closeActive\<close>; it reads \<open>active\<close> when it runs.\<close>

definition doClose :: "menu_state \<Rightarrow> menu_state" where
  "doClose s =
     (case active s of
        None \<Rightarrow> s
      | Some a \<Rightarrow> s\<lparr>is_open := (is_open s)(a := False), active := None\<rparr>)"

definition closeActive :: "bool \<Rightarrow> menu_state \<Rightarrow> menu_state" where
  "closeActive immediate s =
     (let s1 = clearCloseTimer s
      in if immediate then doClose s1
         else (case setTimeout 120 s1 of (t, s2) \<Rightarrow> s2\<lparr>closeTimer := Some t\<rparr>))"

definition openItem :: "item \<Rightarrow> menu_state \<Rightarrow> menu_state" where
  "openItem li s =
     (let s1 = clearCloseTimer s;
          s2 = (case active s1 of
                  None \<Rightarrow> s1
                | Some a \<Rightarrow> if a \<noteq> li then s1\<lparr>is_open := (is_open s1)(a := False)\<rparr> else s1)
      in s2\<lparr>active := Some li, is_open := (is_open s2)(li := True)\<rparr>)"

text \<open>Lines 207-208: the first two statements of \<open>setupDesktopMenus\<close>.\<close>

definition setupDesktopMenus :: "menu_state \<Rightarrow> menu_state" where
  "setupDesktopMenus s = s\<lparr>is_open := (\<lambda>_. False), active := None\<rparr>"

text \<open>
  The listeners \<open>setupDesktopMenus\<close> and line 260 register, as events. An item event names
  an item that has a submenu (the others get no listener). \<open>ItemLeave li b\<close>: \<open>b\<close> is
  \<open>submenu.contains(e.relatedTarget)\<close>; \<open>SubmenuLeave li b\<close>: \<open>b\<close> is
  \<open>li.contains(e.relatedTarget)\<close>; \<open>PointerDown b\<close>: \<open>b\<close> tells whether the target has an
  ancestor \<open>.menubar\<close>; \<open>MenuKeyDown k\<close> carries \<open>e.key\<close>; \<open>BreakpointChange m\<close> is the
  change event of the media query, \<open>m\<close> its new \<open>matches\<close>. \<open>TimerFires t\<close> is the browser
  running the timeout \<open>t\<close>, which it does only for a pending timeout that is due;
  \<open>Elapse d\<close> lets \<open>d\<close> milliseconds pass.
\<close>

datatype menu_event =
  ItemEnter item
  | ItemLeave item bool
  | SubmenuEnter item
  | SubmenuLeave item bool
  | PointerDown bool
  | MenuKeyDown js_string
  | BreakpointChange bool
  | TimerFires nat
  | Elapse nat

fun menu_step :: "menu_event \<Rightarrow> menu_state \<Rightarrow> menu_state" where
  "menu_step (ItemEnter li) s = (if \<not> desktop s then s else openItem li s)"
| "menu_step (ItemLeave li into_submenu) s =
     (if \<not> desktop s then s else if into_submenu then s else closeActive False s)"
| "menu_step (SubmenuEnter li) s =
     (if \<not> desktop s then s else openItem li (clearCloseTimer s))"
| "menu_step (SubmenuLeave li into_item) s =
     (if \<not> desktop s then s else if into_item then s else closeActive False s)"
| "menu_step (PointerDown in_menubar) s =
     (if \<not> desktop s then s else if \<not> in_menubar then closeActive True s else s)"
| "menu_step (MenuKeyDown k) s =
     (if \<not> desktop s then s else if k = str ''Escape'' then closeActive True s else s)"
| "menu_step (BreakpointChange m) s = closeActive True (s\<lparr>desktop := m\<rparr>)"
| "menu_step (TimerFires t) s =
     (case timers s t of
        None \<Rightarrow> s
      | Some due \<Rightarrow> if due \<le> now s then doClose (s\<lparr>timers := (timers s)(t := None)\<rparr>) else s)"
| "menu_step (Elapse d) s = s\<lparr>now := now s + d\<rparr>"

definition menu_run :: "menu_event list \<Rightarrow> menu_state \<Rightarrow> menu_state" where
  "menu_run evs s = foldl (\<lambda>s e. menu_step e s) s evs"

text \<open>
  The state once the script has run: \<open>active\<close> and \<open>closeTimer\<close> are null (lines 176-177),
  no timeout of the script is pending, and \<open>setupDesktopMenus\<close> has run on the classes
  \<open>markup\<close> the page came with. \<open>m\<close> is \<open>mqDesktop.matches\<close>, \<open>t0\<close> the clock and
  \<open>Suc k\<close> the first timeout id (the browser's ids are positive).
\<close>

definition menu_init :: "(item \<Rightarrow> bool) \<Rightarrow> bool \<Rightarrow> nat \<Rightarrow> nat \<Rightarrow> menu_state" where
  "menu_init markup m t0 k =
     setupDesktopMenus
       \<lparr>is_open = markup, active = None, closeTimer = None, timers = Map.empty,
        next_timer = Suc k, now = t0, desktop = m\<rparr>"

text \<open>What the proofs carry along every run.\<close>

definition menu_inv :: "menu_state \<Rightarrow> bool" where
  "menu_inv s \<longleftrightarrow>
     (\<forall>i. is_open s i \<longrightarrow> active s = Some i)
     \<and> (\<forall>t. t \<in> dom (timers s) \<longrightarrow> closeTimer s = Some t)
     \<and> closeTimer s \<noteq> Some 0
     \<and> 0 < next_timer s
     \<and> (\<not> desktop s \<longrightarrow> active s = None)"

section \<open>Escaping: results\<close>

lemma replaceAll_unit:
  "replaceAll [p] r s = concat (map (\<lambda>x. if x = p then r else [x]) s)"
  by (induction s) auto

lemma escapeHtml_concat: "escapeHtml s = concat (map escape_unit s)"
proof (induction s)
  case Nil
  show ?case by (simp add: escapeHtml_def str_def)
next
  case (Cons x s)
  then show ?case
    by (simp add: escapeHtml_def str_def replaceAll_unit escape_unit_def)
qed

lemma set_escapeHtml: "set (escapeHtml s) = (\<Union>x\<in>set s. set (escape_unit x))"
  by (simp add: escapeHtml_concat)

lemma escapeHtml_no_special:
  "60 \<notin> set (escapeHtml s)" "62 \<notin> set (escapeHtml s)" "34 \<notin> set (escapeHtml s)"
  "39 \<notin> set (escapeHtml s)"
  by (auto simp: set_escapeHtml escape_unit_def str_def split: if_splits)

lemma amp_next_skip: "x \<noteq> 38 \<Longrightarrow> amp_next P (x # t) = amp_next P t"
  by (cases t) simp_all

lemma amp_next_skips: "38 \<notin> set a \<Longrightarrow> amp_next P (a @ t) = amp_next P t"
  by (induction a) (simp_all add: amp_next_skip)

lemma amp_next_tail: "amp_next P (x # t) \<Longrightarrow> amp_next P t"
  by (cases t) simp_all

lemma amp_next_amp: "amp_next (\<lambda>y. y = 97) (replaceAll [38] (str ''&amp;'') s)"
  by (induction s) (simp_all add: replaceAll_unit str_def amp_next_skip)

lemma amp_next_sub:
  assumes "amp_next P t" and "c \<noteq> 38" and "\<And>y. P y \<Longrightarrow> y \<noteq> c \<and> Q y" and "Q d"
    and "38 \<notin> set (d # es)"
  shows "amp_next Q (replaceAll [c] (38 # d # es) t)"
  using assms(1)
proof (induction t)
  case Nil
  show ?case by simp
next
  case (Cons x t)
  from Cons.prems have "amp_next P t"
    by (rule amp_next_tail)
  then have IH: "amp_next Q (replaceAll [c] (38 # d # es) t)"
    by (rule Cons.IH)
  show ?case
  proof (cases "x = 38")
    case False
    with IH assms(4,5) show ?thesis
      by (cases "x = c") (simp_all add: replaceAll_unit amp_next_skip amp_next_skips)
  next
    case True
    with Cons.prems obtain y t' where t: "t = y # t'" and "P y"
      by (cases t) auto
    with assms(3) have "y \<noteq> c" and "Q y"
      by auto
    with IH True assms(2) t show ?thesis
      by (simp add: replaceAll_unit)
  qed
qed

lemma undo_amp: "replaceAll (str ''&amp;'') [38] (replaceAll [38] (str ''&amp;'') s) = s"
  by (induction s) (simp_all add: replaceAll_unit str_def)

lemma undo_sub:
  assumes "amp_next P t" and "c \<noteq> 38" and "\<And>y. P y \<Longrightarrow> y \<noteq> c \<and> y \<noteq> d"
  shows "replaceAll (38 # d # es) [c] (replaceAll [c] (38 # d # es) t) = t"
  using assms(1)
proof (induction t)
  case Nil
  show ?case by simp
next
  case (Cons x t)
  from Cons.prems have "amp_next P t"
    by (rule amp_next_tail)
  then have IH: "replaceAll (38 # d # es) [c] (replaceAll [c] (38 # d # es) t) = t"
    by (rule Cons.IH)
  show ?case
  proof (cases "x = 38")
    case False
    with IH show ?thesis
      by (cases "x = c") (simp_all add: replaceAll_unit)
  next
    case True
    with Cons.prems obtain y t' where t: "t = y # t'" and "P y"
      by (cases t) auto
    with assms(3) have "y \<noteq> c" and "y \<noteq> d"
      by auto
    with IH True assms(2) t show ?thesis
      by (simp add: replaceAll_unit)
  qed
qed


lemma entity_shapes:
  "str ''&lt;'' = 38 # 108 # [116, 59]" "str ''&gt;'' = 38 # 103 # [116, 59]"
  \<open>str ''&quot;'' = 38 # 113 # [117, 111, 116, 59]\<close> "str ''&#039;'' = 38 # 35 # [48, 51, 57, 59]"
  "str ''&'' = [38]" "str ''<'' = [60]" "str ''>'' = [62]" \<open>str ''"'' = [34]\<close>
  "str [CHR 0x27] = [39]"
  by (simp_all add: str_def)

lemma unescape_escape: "unescapeHtml (escapeHtml s) = s"
proof -
  let ?s1 = "replaceAll [38] (str ''&amp;'') s"
  let ?s2 = "replaceAll [60] (38 # 108 # [116, 59]) ?s1"
  let ?s3 = "replaceAll [62] (38 # 103 # [116, 59]) ?s2"
  let ?s4 = "replaceAll [34] (38 # 113 # [117, 111, 116, 59]) ?s3"
  let ?s5 = "replaceAll [39] (38 # 35 # [48, 51, 57, 59]) ?s4"
  have a1: "amp_next (\<lambda>y. y = 97) ?s1"
    by (rule amp_next_amp)
  have a2: "amp_next (\<lambda>y. y = 97 \<or> y = 108) ?s2"
    by (rule amp_next_sub [OF a1]) simp_all
  have a3: "amp_next (\<lambda>y. y = 97 \<or> y = 108 \<or> y = 103) ?s3"
    by (rule amp_next_sub [OF a2]) auto
  have a4: "amp_next (\<lambda>y. y = 97 \<or> y = 108 \<or> y = 103 \<or> y = 113) ?s4"
    by (rule amp_next_sub [OF a3]) auto
  have u5: "replaceAll (38 # 35 # [48, 51, 57, 59]) [39] ?s5 = ?s4"
    by (rule undo_sub [OF a4]) auto
  have u4: "replaceAll (38 # 113 # [117, 111, 116, 59]) [34] ?s4 = ?s3"
    by (rule undo_sub [OF a3]) auto
  have u3: "replaceAll (38 # 103 # [116, 59]) [62] ?s3 = ?s2"
    by (rule undo_sub [OF a2]) auto
  have u2: "replaceAll (38 # 108 # [116, 59]) [60] ?s2 = ?s1"
    by (rule undo_sub [OF a1]) auto
  have u1: "replaceAll (str ''&amp;'') [38] ?s1 = s"
    by (rule undo_amp)
  have "escapeHtml s = ?s5"
    by (simp only: escapeHtml_def entity_shapes)
  then show ?thesis
    by (simp only: unescapeHtml_def entity_shapes u5 u4 u3 u2 u1)
qed

lemma escape_unit_cases:
  "escape_unit x \<in> set entities \<and> (\<forall>j<length (escape_unit x). escape_unit x ! j = 38 \<longrightarrow> j = 0)
   \<or> escape_unit x = [x] \<and> x \<noteq> 38"
  by (auto simp: escape_unit_def entities_def str_def nth_Cons' split: if_splits)

lemma amp_leads_entity:
  "i < length (escapeHtml s) \<Longrightarrow> escapeHtml s ! i = 38 \<Longrightarrow>
     \<exists>e\<in>set entities. prefix e (drop i (escapeHtml s))"
proof (induction s arbitrary: i)
  case Nil
  then show ?case by (simp add: escapeHtml_concat)
next
  case (Cons x s)
  let ?u = "escape_unit x"
  have eq: "escapeHtml (x # s) = ?u @ escapeHtml s"
    by (simp add: escapeHtml_concat)
  show ?case
  proof (cases "i < length ?u")
    case True
    with Cons.prems have at: "?u ! i = 38"
      by (simp add: eq nth_append)
    with escape_unit_cases [of x] True have "?u \<in> set entities" and "i = 0"
      by auto
    then show ?thesis
      unfolding eq by (intro bexI [of _ ?u]) simp_all
  next
    case False
    with Cons.prems have "i - length ?u < length (escapeHtml s)"
      and "escapeHtml s ! (i - length ?u) = 38"
      by (simp_all add: eq nth_append)
    then have "\<exists>e\<in>set entities. prefix e (drop (i - length ?u) (escapeHtml s))"
      by (rule Cons.IH)
    with False show ?thesis
      by (simp add: eq)
  qed
qed

text \<open>
  C1: for every string, the output of \<open>escapeHtml\<close> holds none of the four characters
  less-than, greater-than, double quote and apostrophe; every ampersand in it starts one of
  the five entities; and the inverse substitution gives the string back.
\<close>

theorem escapeHtml_safe_and_invertible:
  \<open>of_char CHR ''<'' \<notin> set (escapeHtml s) \<and> of_char CHR ''>'' \<notin> set (escapeHtml s)
   \<and> of_char CHR ''"'' \<notin> set (escapeHtml s) \<and> of_char (CHR 0x27) \<notin> set (escapeHtml s)
   \<and> (\<forall>i<length (escapeHtml s). escapeHtml s ! i = of_char CHR ''&'' \<longrightarrow>
         (\<exists>e\<in>set entities. prefix e (drop i (escapeHtml s))))
   \<and> unescapeHtml (escapeHtml s) = s\<close>
  using escapeHtml_no_special [of s] amp_leads_entity [of _ s] unescape_escape [of s]
  by simp

theorem escapeHtml_safe_and_invertible_witness:
  \<open>escapeHtml (str ''<&'') = str ''&lt;&amp;''
   \<and> 4 < length (escapeHtml (str ''<&'')) \<and> escapeHtml (str ''<&'') ! 4 = of_char CHR ''&''
   \<and> (\<exists>e\<in>set entities. prefix e (drop 4 (escapeHtml (str ''<&''))))\<close>
proof -
  have out: \<open>escapeHtml (str ''<&'') = str ''&lt;&amp;''\<close>
    by (simp add: escapeHtml_concat escape_unit_def str_def)
  have at: \<open>4 < length (escapeHtml (str ''<&''))\<close> \<open>escapeHtml (str ''<&'') ! 4 = of_char CHR ''&''\<close>
    unfolding out by (simp_all add: str_def)
  with escapeHtml_safe_and_invertible [of \<open>str ''<&''\<close>] out show ?thesis
    by blast
qed

section \<open>Heading ids: results\<close>

lemma replace_class_filter: "replace_class (\<lambda>c. \<not> P c) [] s = filter P s"
  by (induction s) (simp_all add: replace_class_def)

lemma replace_runs_collapse: "replace_runs isSpace (str ''-'') s = collapse_spaces s"
  by (induction s rule: collapse_spaces.induct) simp_all

lemma slugify_spec: "slugify lower t = slug_spec lower t"
  by (simp only: slugify_def slug_spec_def replace_class_filter replace_runs_collapse)

lemma slug_example: "slugify lower (str ''Getting Started!'') = str ''getting-started''"
  by (simp add: slugify_def toLowerCase_def trim_def replace_class_def str_def isSpace_def isWord_def)

text \<open>
  C6: a heading without an id gets as id its text lowercased, trimmed, with the code units
  that are neither word characters, white space nor the hyphen removed, and each run of
  white space collapsed to one hyphen; the text \<open>Getting Started!\<close> gets
  \<open>getting-started\<close>.
\<close>

theorem heading_slug:
  "h_id h = [] \<longrightarrow>
     h_id (assignId lower h) = slug_spec lower (textContent h)
     \<and> (textContent h = str ''Getting Started!'' \<longrightarrow> h_id (assignId lower h) = str ''getting-started'')"
  using slug_example [of lower] by (simp add: assignId_def slugify_spec[symmetric])

theorem heading_slug_witness:
  "h_id (assignId (\<lambda>s. s) \<lparr>h_id = [], textContent = str ''Getting Started!''\<rparr>) = str ''getting-started''
   \<and> slug_spec (\<lambda>s. s) (str ''Getting Started!'') = str ''getting-started''"
proof -
  let ?h = "\<lparr>h_id = [], textContent = str ''Getting Started!''\<rparr>"
  have "h_id ?h = []" and "textContent ?h = str ''Getting Started!''"
    by simp_all
  with heading_slug [of ?h "\<lambda>s. s"] show ?thesis
    by metis
qed

section \<open>Accordion renderer: results\<close>

lemma tags_skip: "60 \<notin> set a \<Longrightarrow> tags (a @ r) = tags r"
  by (induction a) simp_all

lemma take_tag: "62 \<notin> set a \<Longrightarrow> takeWhile (\<lambda>x. x \<noteq> 62) (a @ r) = a @ takeWhile (\<lambda>x. x \<noteq> 62) r"
  by (induction a) simp_all

lemma escapeHtml_plain: "set s \<inter> {38, 60, 62, 34, 39} = {} \<Longrightarrow> escapeHtml s = s"
  by (induction s) (simp_all add: escapeHtml_concat escape_unit_def)

lemma decimal_digits: "set (decimal n) \<subseteq> {48..57}"
proof (induction n rule: decimal.induct)
  case (1 n)
  show ?case
  proof (cases "n < 10")
    case True
    then show ?thesis by (subst decimal.simps) simp
  next
    case False
    with 1 have "set (decimal (n div 10)) \<subseteq> {48..57}" by simp
    moreover have "n mod 10 < 10" by simp
    ultimately show ?thesis using False
      by (subst decimal.simps) auto
  qed
qed

lemma escape_acc_id: "escapeHtml (str ''acc_'' @ hash u) = str ''acc_'' @ hash u"
proof (rule escapeHtml_plain)
  have "set (hash u) \<subseteq> {48..57}"
    unfolding hash_def by (rule decimal_digits)
  then show "set (str ''acc_'' @ hash u) \<inter> {38, 60, 62, 34, 39} = {}"
    by (auto simp: str_def)
qed


lemma tags_concat:
  assumes "\<And>c r. c \<in> set cs \<Longrightarrow> tags (f c @ r) = g c @ tags r"
  shows "tags (concat (map f cs) @ r) = concat (map g cs) @ tags r"
  using assms by (induction cs) simp_all

lemma no_angle:
  "60 \<notin> set (escAttr s)" "62 \<notin> set (escAttr s)" "60 \<notin> set (escHtml s)" "62 \<notin> set (escHtml s)"
  "60 \<notin> set (indentClass d)" "62 \<notin> set (indentClass d)"
  "60 \<notin> set (hash u)" "62 \<notin> set (hash u)"
  using decimal_digits [of "nat \<bar>sint (foldl (\<lambda>h c. push_bit 5 h - h + of_nat c) (0 :: 32 word) u)\<bar>"]
  by (auto simp: escAttr_def escHtml_def escapeHtml_no_special indentClass_def str_def hash_def)

lemma escAttr_acc_id: "escAttr (97 # 99 # 99 # 95 # hash u) = 97 # 99 # 99 # 95 # hash u"
  using escape_acc_id [of u] by (simp add: escAttr_def str_def)

lemma tags_leaf_child:
  "tags (renderChild (NavNode t u []) d @ r) = child_tags (NavNode t u []) d @ tags r"
  by (simp add: link_tag_def str_def tags_skip take_tag no_angle)


lemma tags_branch_child:
  assumes "cs \<noteq> []"
    and "\<And>r. tags (concat (map (\<lambda>c. renderChild c (d + 1)) cs) @ r)
           = concat (map (\<lambda>c. child_tags c (d + 1)) cs) @ tags r"
  shows "tags (renderChild (NavNode t u cs) d @ r) = child_tags (NavNode t u cs) d @ tags r"
  using assms(1)
  by (simp add: Let_def escAttr_acc_id assms(2) [simplified] link_tag_def div_tag_def toggle_tag_def
      panel_tag_def str_def tags_skip take_tag no_angle)

lemma tags_renderChild: "tags (renderChild n d @ r) = child_tags n d @ tags r"
proof (induction n d arbitrary: r rule: renderChild.induct)
  case (1 t u cs depth)
  show ?case
  proof (cases "cs = []")
    case True
    then show ?thesis by (simp only: tags_leaf_child)
  next
    case False
    have "tags (concat (map (\<lambda>c. renderChild c (depth + 1)) cs) @ r')
           = concat (map (\<lambda>c. child_tags c (depth + 1)) cs) @ tags r'" for r'
      by (rule tags_concat) (rule 1 [OF False refl])
    with False show ?thesis
      by (rule tags_branch_child)
  qed
qed

lemma tags_renderNode: "tags (renderNode n d @ r) = node_tags n d @ tags r"
proof (cases n)
  case (NavNode t u cs)
  have kids: "tags (concat (map (\<lambda>c. renderChild c (d + 1)) cs) @ r')
           = concat (map (\<lambda>c. child_tags c (d + 1)) cs) @ tags r'" for r'
    by (rule tags_concat) (rule tags_renderChild)
  show ?thesis
  proof (cases "cs = []")
    case True
    with NavNode show ?thesis
      by (simp add: link_tag_def str_def tags_skip take_tag no_angle)
  next
    case False
    with NavNode show ?thesis
      by (simp add: Let_def escAttr_acc_id kids [simplified] link_tag_def section_tag_def toggle_tag_def
          panel_tag_def str_def tags_skip take_tag no_angle)
  qed
qed


lemma tags_drawerNavHtml:
  "tags (drawerNavHtml navTree) = concat (map (\<lambda>n. node_tags n 0) navTree)"
  using tags_concat [of navTree "\<lambda>n. renderNode n 0" "\<lambda>n. node_tags n 0" "[]"]
  by (simp add: drawerNavHtml_def tags_renderNode)

lemma tag_kinds:
  "is_button (toggle_tag i)" "\<not> is_button (div_tag i)" "\<not> is_button (section_tag i)"
  "\<not> is_button panel_tag" "\<not> is_button (link_tag cls u)"
  "\<not> is_button (str ''span'')" "\<not> is_button (str ''/span'')"
  \<open>\<not> is_button (str ''span class="acc__chev"'')\<close> "\<not> is_button (str ''/button'')"
  "\<not> is_button (str ''/a'')" "\<not> is_button (str ''/div'')" "\<not> is_button (str ''/section'')"
  "\<not> is_acc (toggle_tag i)" "is_acc (div_tag i)" "is_acc (section_tag i)"
  "\<not> is_acc panel_tag" "\<not> is_acc (link_tag cls u)"
  "\<not> is_acc (str ''span'')" "\<not> is_acc (str ''/span'')"
  \<open>\<not> is_acc (str ''span class="acc__chev"'')\<close> "\<not> is_acc (str ''/button'')"
  "\<not> is_acc (str ''/a'')" "\<not> is_acc (str ''/div'')" "\<not> is_acc (str ''/section'')"
  "\<not> is_panel (toggle_tag i)" "\<not> is_panel (div_tag i)" "\<not> is_panel (section_tag i)"
  "is_panel panel_tag" "\<not> is_panel (link_tag cls u)"
  "\<not> is_panel (str ''span'')" "\<not> is_panel (str ''/span'')"
  \<open>\<not> is_panel (str ''span class="acc__chev"'')\<close> "\<not> is_panel (str ''/button'')"
  "\<not> is_panel (str ''/a'')" "\<not> is_panel (str ''/div'')" "\<not> is_panel (str ''/section'')"
  by (simp_all add: is_button_def is_acc_def is_panel_def toggle_tag_def div_tag_def
      section_tag_def panel_tag_def link_tag_def str_def)

lemma buttons_child:
  "filter is_button (child_tags n d) = map (\<lambda>n. toggle_tag (acc_id n)) (branch_nodes n)"
  by (induction n d rule: child_tags.induct)
    (simp add: tag_kinds filter_concat map_concat comp_def acc_id_def cong: map_cong)

lemma accs_child:
  "filter is_acc (child_tags n d) = map (\<lambda>n. div_tag (acc_id n)) (branch_nodes n)"
  by (induction n d rule: child_tags.induct)
    (simp add: tag_kinds filter_concat map_concat comp_def acc_id_def cong: map_cong)

lemma panels_child:
  "filter is_panel (child_tags n d) = map (\<lambda>n. panel_tag) (branch_nodes n)"
  by (induction n d rule: child_tags.induct)
    (simp add: tag_kinds filter_concat map_concat comp_def cong: map_cong)

lemma buttons_node:
  "filter is_button (node_tags n d) = map (\<lambda>n. toggle_tag (acc_id n)) (branch_nodes n)"
  by (cases n)
    (simp add: tag_kinds filter_concat map_concat comp_def acc_id_def buttons_child)

lemma panels_node:
  "filter is_panel (node_tags n d) = map (\<lambda>n. panel_tag) (branch_nodes n)"
  by (cases n)
    (simp add: tag_kinds filter_concat map_concat comp_def panels_child)

lemma accs_node:
  "filter is_acc (node_tags n d)
     = (if children n = [] then []
        else section_tag (acc_id n)
             # map (\<lambda>n. div_tag (acc_id n)) (concat (map branch_nodes (children n))))"
  by (cases n)
    (simp add: tag_kinds filter_concat map_concat comp_def acc_id_def accs_child)


lemma accs_node_all2:
  "list_all2 (\<lambda>tg n. tg = section_tag (acc_id n) \<or> tg = div_tag (acc_id n))
     (filter is_acc (node_tags n d)) (branch_nodes n)"
proof (cases n)
  case (NavNode t u cs)
  show ?thesis
  proof (cases "cs = []")
    case True
    with NavNode show ?thesis unfolding accs_node by simp
  next
    case False
    with NavNode show ?thesis
      unfolding accs_node by (simp add: list_all2_map1 list_all2_same)
  qed
qed

lemma list_all2_concat_map:
  assumes "\<And>x. list_all2 P (f x) (g x)"
  shows "list_all2 P (concat (map f xs)) (concat (map g xs))"
  by (induction xs) (simp_all add: assms list_all2_appendI)

lemma accs_drawer:
  "list_all2 (\<lambda>tg n. tg = section_tag (acc_id n) \<or> tg = div_tag (acc_id n))
     (filter is_acc (tags (drawerNavHtml navTree))) (concat (map branch_nodes navTree))"
  unfolding tags_drawerNavHtml filter_concat map_map comp_def
  by (rule list_all2_concat_map) (rule accs_node_all2)

lemma tags_leaf:
  "children n = [] \<Longrightarrow>
     tags (renderNode n d) = [link_tag (str ''drawer__leaf'' @ indentClass d) (url n), str ''/a'']"
  "children n = [] \<Longrightarrow>
     tags (renderChild n d) = [link_tag (str ''acc__child'' @ indentClass d) (url n), str ''/a'']"
  using tags_renderNode [of n d "[]"] tags_renderChild [of n d "[]"]
  by (cases n; simp)+

text \<open>
  C5: in the markup of the drawer, for every forest of nodes, the buttons are exactly one
  toggle button per branch node, carrying the identifier derived from that node's URL in
  \<open>data-acc-toggle\<close>; the elements of class \<open>acc\<close> are exactly one per branch node, in the
  same order, carrying the same identifier in \<open>data-acc\<close>; the panels are exactly one per
  branch node; and a node without children renders as one link and nothing else, whether
  \<open>renderNode\<close> or \<open>renderChild\<close> renders it.
\<close>

theorem accordion_pairs:
  "filter is_button (tags (drawerNavHtml navTree))
     = map (\<lambda>n. toggle_tag (acc_id n)) (concat (map branch_nodes navTree))
   \<and> list_all2 (\<lambda>tg n. tg = section_tag (acc_id n) \<or> tg = div_tag (acc_id n))
        (filter is_acc (tags (drawerNavHtml navTree))) (concat (map branch_nodes navTree))
   \<and> filter is_panel (tags (drawerNavHtml navTree))
     = map (\<lambda>n. panel_tag) (concat (map branch_nodes navTree))
   \<and> (children n = [] \<longrightarrow>
        tags (renderNode n d) = [link_tag (str ''drawer__leaf'' @ indentClass d) (url n), str ''/a'']
        \<and> tags (renderChild n d) = [link_tag (str ''acc__child'' @ indentClass d) (url n), str ''/a''])"
proof -
  have "filter is_button (tags (drawerNavHtml navTree))
     = map (\<lambda>n. toggle_tag (acc_id n)) (concat (map branch_nodes navTree))"
    by (simp add: tags_drawerNavHtml filter_concat map_concat comp_def buttons_node)
  moreover have "filter is_panel (tags (drawerNavHtml navTree))
     = map (\<lambda>n. panel_tag) (concat (map branch_nodes navTree))"
    by (simp add: tags_drawerNavHtml filter_concat map_concat comp_def panels_node)
  ultimately show ?thesis
    using accs_drawer [of navTree] tags_leaf [of n d] by blast
qed

text \<open>
  C10: in the markup of the drawer, for every forest of nodes, every tag that opens an
  element of class \<open>acc\<close> ends with \<open>aria-expanded="false"\<close> and is the section or the
  div of a branch node, and there are as many of them as branch nodes, whatever their depth.
\<close>

theorem sections_start_collapsed:
  \<open>(\<forall>tg\<in>set (tags (drawerNavHtml navTree)). is_acc tg \<longrightarrow>
       suffix (str '' aria-expanded="false"'') tg
       \<and> (\<exists>n\<in>set (concat (map branch_nodes navTree)).
             tg = section_tag (acc_id n) \<or> tg = div_tag (acc_id n)))
   \<and> length (filter is_acc (tags (drawerNavHtml navTree)))
     = length (concat (map branch_nodes navTree))\<close>
proof -
  let ?P = "\<lambda>tg n. tg = section_tag (acc_id n) \<or> tg = div_tag (acc_id n)"
  let ?xs = "filter is_acc (tags (drawerNavHtml navTree))"
  let ?ys = "concat (map branch_nodes navTree)"
  have all2: "list_all2 ?P ?xs ?ys"
    by (rule accs_drawer)
  have form: "\<exists>n\<in>set ?ys. ?P tg n" if "tg \<in> set (tags (drawerNavHtml navTree))" "is_acc tg" for tg
  proof -
    from that have "tg \<in> set ?xs" by simp
    then obtain k where k: "k < length ?xs" "?xs ! k = tg"
      by (metis in_set_conv_nth)
    with all2 have "?P tg (?ys ! k)" and "k < length ?ys"
      by (auto simp: list_all2_conv_all_nth)
    then show ?thesis
      using nth_mem by blast
  qed
  have suf: \<open>suffix (str '' aria-expanded="false"'') tg\<close> if "?P tg n" for tg n
    using that by (auto simp: section_tag_def div_tag_def str_def suffix_def)
  from form suf list_all2_lengthD [OF all2] show ?thesis
    by blast
qed


theorem accordion_pairs_witness:
  "filter is_button
     (tags (drawerNavHtml [NavNode (str ''Docs'') (str ''/docs'') [NavNode (str ''Intro'') (str ''/intro'') []]]))
     = [toggle_tag (str ''acc_'' @ hash (str ''/docs''))]
   \<and> children (NavNode (str ''Intro'') (str ''/intro'') []) = []
   \<and> tags (renderChild (NavNode (str ''Intro'') (str ''/intro'') []) 1)
     = [link_tag (str ''acc__child acc__child--indent'') (str ''/intro''), str ''/a'']"
proof -
  let ?leaf = "NavNode (str ''Intro'') (str ''/intro'') []"
  let ?N = "NavNode (str ''Docs'') (str ''/docs'') [?leaf]"
  have bs: "concat (map branch_nodes [?N]) = [?N]"
    by simp
  have leaf: "children ?leaf = []"
    by simp
  have id: "acc_id ?N = str ''acc_'' @ hash (str ''/docs'')"
    by (simp add: acc_id_def)
  have ind: "str ''acc__child'' @ indentClass 1 = str ''acc__child acc__child--indent''"
    by (simp add: indentClass_def str_def)
  have url: "url ?leaf = str ''/intro''"
    by simp
  from accordion_pairs [of "[?N]" ?leaf 1] leaf
  have "filter is_button (tags (drawerNavHtml [?N]))
          = map (\<lambda>n. toggle_tag (acc_id n)) (concat (map branch_nodes [?N]))"
    and "tags (renderChild ?leaf 1) = [link_tag (str ''acc__child'' @ indentClass 1) (url ?leaf), str ''/a'']"
    by blast+
  then have "filter is_button (tags (drawerNavHtml [?N])) = [toggle_tag (str ''acc_'' @ hash (str ''/docs''))]"
    and "tags (renderChild ?leaf 1) = [link_tag (str ''acc__child acc__child--indent'') (str ''/intro''), str ''/a'']"
    unfolding bs ind url by (simp_all only: list.map id)
  with leaf show ?thesis
    by blast
qed

theorem sections_start_collapsed_witness:
  \<open>div_tag (str ''acc_'' @ hash (str ''/b''))
     \<in> set (tags (drawerNavHtml
         [NavNode (str ''A'') (str ''/a'') [NavNode (str ''B'') (str ''/b'') [NavNode (str ''C'') (str ''/c'') []]]]))
   \<and> is_acc (div_tag (str ''acc_'' @ hash (str ''/b'')))
   \<and> suffix (str '' aria-expanded="false"'') (div_tag (str ''acc_'' @ hash (str ''/b'')))\<close>
proof -
  let ?K = "NavNode (str ''B'') (str ''/b'') [NavNode (str ''C'') (str ''/c'') []]"
  let ?N = "NavNode (str ''A'') (str ''/a'') [?K]"
  let ?tg = "div_tag (str ''acc_'' @ hash (str ''/b''))"
  have mem: "?tg \<in> set (tags (drawerNavHtml [?N]))"
    by (simp add: tags_drawerNavHtml)
  have acc: "is_acc ?tg"
    by (rule tag_kinds)
  from sections_start_collapsed [of "[?N]"] mem acc
  have \<open>suffix (str '' aria-expanded="false"'') ?tg\<close>
    by blast
  with mem acc show ?thesis
    by blast
qed

section \<open>Theme: results\<close>

lemma str_light_neq_dark: "str ''light'' \<noteq> str ''dark''"
  by (simp add: str_def)

text \<open>
  C9: applying the stored theme sets the \<open>data-theme\<close> attribute to the stored value
  when that value is exactly \<open>"light"\<close> or exactly \<open>"dark"\<close>; for every other stored
  value, and for no stored value, the state is returned as it was. The function is total:
  no branch of it raises.
\<close>

theorem applyStoredTheme_iff:
  "(stored_theme s = Some (str ''light'') \<or> stored_theme s = Some (str ''dark'')
      \<longrightarrow> applyStoredTheme s = s\<lparr>data_theme := stored_theme s\<rparr>)
   \<and> (\<not> (stored_theme s = Some (str ''light'') \<or> stored_theme s = Some (str ''dark''))
      \<longrightarrow> applyStoredTheme s = s)"
  by (simp add: applyStoredTheme_def Let_def)

theorem applyStoredTheme_iff_witness:
  "data_theme (applyStoredTheme \<lparr>data_theme = None, stored_theme = Some (str ''light'')\<rparr>)
     = Some (str ''light'')
   \<and> data_theme (applyStoredTheme
        \<lparr>data_theme = Some (str ''light''), stored_theme = Some (str ''dark'')\<rparr>)
     = Some (str ''dark'')
   \<and> applyStoredTheme \<lparr>data_theme = Some (str ''dark''), stored_theme = Some (str ''Light'')\<rparr>
     = \<lparr>data_theme = Some (str ''dark''), stored_theme = Some (str ''Light'')\<rparr>
   \<and> applyStoredTheme \<lparr>data_theme = Some (str ''dark''), stored_theme = None\<rparr>
     = \<lparr>data_theme = Some (str ''dark''), stored_theme = None\<rparr>"
  using applyStoredTheme_iff
      [of "\<lparr>data_theme = None, stored_theme = Some (str ''light'')\<rparr>"]
    applyStoredTheme_iff
      [of "\<lparr>data_theme = Some (str ''light''), stored_theme = Some (str ''dark'')\<rparr>"]
    applyStoredTheme_iff
      [of "\<lparr>data_theme = Some (str ''dark''), stored_theme = Some (str ''Light'')\<rparr>"]
    applyStoredTheme_iff
      [of "\<lparr>data_theme = Some (str ''dark''), stored_theme = None\<rparr>"]
  by (simp add: str_def)

text \<open>
  C2, as stated: from no attribute and no stored value, two toggles run a
  dark, light, dark cycle and give back the state they started from. On the code the first
  toggle writes \<open>"dark"\<close> and the second \<open>"light"\<close>: the attribute and the stored value end
  as \<open>"light"\<close>, neither absent nor \<open>"dark"\<close>.
\<close>

theorem toggleTheme_twice_counterexample:
  "data_theme (toggleTheme noTheme) = Some (str ''dark'')
   \<and> data_theme (toggleTheme (toggleTheme noTheme)) = Some (str ''light'')
   \<and> stored_theme (toggleTheme (toggleTheme noTheme)) = Some (str ''light'')
   \<and> toggleTheme (toggleTheme noTheme) \<noteq> noTheme
   \<and> \<not> (data_theme (toggleTheme noTheme) = Some (str ''light'')
        \<and> data_theme (toggleTheme (toggleTheme noTheme)) = Some (str ''dark''))"
  by (simp add: toggleTheme_def noTheme_def Let_def str_light_neq_dark)

text \<open>
  C2, amended: from every state, two toggles give back the theme the toggle reads off the
  attribute (any value other than \<open>"dark"\<close>, and the absent attribute, count as light),
  and leave that theme both in the attribute and in the store; from no attribute and no
  stored value the cycle is light, dark, light.
\<close>

theorem toggleTheme_twice_activeTheme:
  "activeTheme (toggleTheme (toggleTheme s)) = activeTheme s
   \<and> data_theme (toggleTheme (toggleTheme s)) = Some (activeTheme s)
   \<and> stored_theme (toggleTheme (toggleTheme s)) = Some (activeTheme s)
   \<and> activeTheme (toggleTheme s) \<noteq> activeTheme s
   \<and> activeTheme noTheme = str ''light''
   \<and> activeTheme (toggleTheme noTheme) = str ''dark''
   \<and> activeTheme (toggleTheme (toggleTheme noTheme)) = str ''light''"
  by (simp add: toggleTheme_def activeTheme_def noTheme_def Let_def str_light_neq_dark
      str_light_neq_dark [symmetric])

section \<open>Drawer: results\<close>

text \<open>
  C8: while the drawer is open (it exists and is not hidden), a click on the close button,
  a click whose target is the drawer itself, an Escape key press and a resize at a viewport
  of 981 pixels or more each leave the drawer hidden, the toggle's \<open>aria-expanded\<close> at
  \<open>"false"\<close> (when the page has the toggle) and the body's overflow style empty. Opening
  sets the same three to not hidden, \<open>"true"\<close> and \<open>"hidden"\<close>, and closing after
  opening is closing.
\<close>

theorem drawer_closes:
  assumes "has_drawer d" and "\<not> drawer_hidden s"
    and "e = MenuCloseClick \<and> has_menuClose d \<or> e = DrawerClick True
         \<or> e = DrawerKeyDown (str ''Escape'') \<or> (\<exists>w. 981 \<le> w \<and> e = Resize w)"
  shows "drawer_hidden (drawer_step d e s)
         \<and> (has_menuToggle d \<longrightarrow> toggle_expanded (drawer_step d e s) = Some (str ''false''))
         \<and> body_overflow (drawer_step d e s) = []
         \<and> \<not> drawer_hidden (openDrawer d s)
         \<and> (has_menuToggle d \<longrightarrow> toggle_expanded (openDrawer d s) = Some (str ''true''))
         \<and> body_overflow (openDrawer d s) = str ''hidden''
         \<and> drawer_step d e (openDrawer d s) = drawer_step d e s"
proof -
  from assms have "drawer_step d e s = closeDrawer d s"
    by auto
  moreover from assms have "drawer_step d e (openDrawer d s) = closeDrawer d (openDrawer d s)"
    by (auto simp: openDrawer_def)
  ultimately show ?thesis
    using assms(1) by (simp add: closeDrawer_def openDrawer_def)
qed

theorem drawer_closes_witness:
  "drawer_step page MenuCloseClick opened = closed
   \<and> drawer_step page (DrawerClick True) opened = closed
   \<and> drawer_step page (DrawerKeyDown (str ''Escape'')) opened = closed
   \<and> drawer_step page (Resize 981) opened = closed"
proof -
  have pre: "has_drawer page" "\<not> drawer_hidden opened" "has_menuClose page" "has_menuToggle page"
    by (simp_all add: page_def opened_def)
  have eq: "s = closed" if "drawer_hidden s \<and> (has_menuToggle page \<longrightarrow> toggle_expanded s = Some (str ''false''))
         \<and> body_overflow s = []" for s
    using that pre(4) by (cases s) (simp add: closed_def)
  have "drawer_step page MenuCloseClick opened = closed"
    using drawer_closes [of page opened MenuCloseClick] pre eq by blast
  moreover have "drawer_step page (DrawerClick True) opened = closed"
    using drawer_closes [of page opened "DrawerClick True"] pre eq by blast
  moreover have "drawer_step page (DrawerKeyDown (str ''Escape'')) opened = closed"
    using drawer_closes [of page opened "DrawerKeyDown (str ''Escape'')"] pre eq by blast
  moreover have "drawer_step page (Resize 981) opened = closed"
    using drawer_closes [of page opened "Resize 981"] pre eq by blast
  ultimately show ?thesis by blast
qed

section \<open>Desktop hover menu: results\<close>

lemmas menu_defs = clearTimeout_def setTimeout_def clearCloseTimer_def doClose_def
  closeActive_def openItem_def

lemma menu_inv_clearCloseTimer: "menu_inv s \<Longrightarrow> menu_inv (clearCloseTimer s)"
  by (auto simp: menu_inv_def clearCloseTimer_def clearTimeout_def split: option.splits)

lemma timers_clearCloseTimer: "menu_inv s \<Longrightarrow> timers (clearCloseTimer s) = Map.empty"
  by (rule ext) (auto simp: menu_inv_def clearCloseTimer_def clearTimeout_def split: option.splits)

lemma desktop_clearCloseTimer: "desktop (clearCloseTimer s) = desktop s"
  by (simp add: clearCloseTimer_def clearTimeout_def split: option.splits)

lemma menu_inv_closeActive: "menu_inv s \<Longrightarrow> menu_inv (closeActive b s)"
  by (auto simp: menu_inv_def menu_defs Let_def split: option.splits)

lemma menu_inv_openItem: "menu_inv s \<Longrightarrow> desktop s \<Longrightarrow> menu_inv (openItem li s)"
  by (auto simp: menu_inv_def menu_defs Let_def split: option.splits)

lemma menu_inv_step: "menu_inv s \<Longrightarrow> menu_inv (menu_step e s)"
proof (cases e)
  case (BreakpointChange m)
  assume "menu_inv s"
  then show ?thesis unfolding BreakpointChange
    by (auto simp: menu_inv_def menu_defs Let_def split: option.splits)
next
  case (TimerFires t)
  assume "menu_inv s"
  then show ?thesis unfolding TimerFires
    by (auto simp: menu_inv_def doClose_def split: option.splits)
next
  case (Elapse d)
  assume "menu_inv s"
  then show ?thesis unfolding Elapse by (simp add: menu_inv_def)
qed (simp_all add: menu_inv_clearCloseTimer menu_inv_closeActive menu_inv_openItem desktop_clearCloseTimer)


lemma menu_inv_init: "menu_inv (menu_init markup m t0 k)"
  by (simp add: menu_inv_def menu_init_def setupDesktopMenus_def)

lemma menu_inv_run: "menu_inv s \<Longrightarrow> menu_inv (menu_run evs s)"
  by (induction evs rule: rev_induct) (simp_all add: menu_run_def menu_inv_step)

lemma menu_inv_reachable: "menu_inv (menu_run evs (menu_init markup m t0 k))"
  by (rule menu_inv_run [OF menu_inv_init])

lemma is_open_openItem: "menu_inv s \<Longrightarrow> is_open (openItem li s) = (\<lambda>i. i = li)"
  by (rule ext) (auto simp: menu_inv_def menu_defs Let_def split: option.splits)

lemma timers_openItem: "menu_inv s \<Longrightarrow> timers (openItem li s) = Map.empty"
  using timers_clearCloseTimer [of s]
  by (auto simp: openItem_def Let_def split: option.splits)

text \<open>
  C3: after every sequence of events from the loaded page, at most one item carries the
  \<open>is-open\<close> class; \<open>openItem\<close> leaves exactly the item it opens with the class and
  no timeout pending, so the item open before loses the class in the same call, not through
  the deferred close; on a desktop viewport that is what entering an item or its submenu does.
\<close>

theorem at_most_one_open:
  "(\<forall>i j. is_open (menu_run evs (menu_init markup m t0 k)) i
        \<and> is_open (menu_run evs (menu_init markup m t0 k)) j \<longrightarrow> i = j)
   \<and> (\<forall>li. is_open (openItem li (menu_run evs (menu_init markup m t0 k))) = (\<lambda>i. i = li)
         \<and> timers (openItem li (menu_run evs (menu_init markup m t0 k))) = Map.empty)
   \<and> (\<forall>li. desktop (menu_run evs (menu_init markup m t0 k)) \<longrightarrow>
         is_open (menu_step (ItemEnter li) (menu_run evs (menu_init markup m t0 k)))
           = (\<lambda>i. i = li)
         \<and> is_open (menu_step (SubmenuEnter li) (menu_run evs (menu_init markup m t0 k)))
           = (\<lambda>i. i = li))"
proof -
  define s where "s = menu_run evs (menu_init markup m t0 k)"
  have inv: "menu_inv s"
    unfolding s_def by (rule menu_inv_reachable)
  have one: "\<forall>i j. is_open s i \<and> is_open s j \<longrightarrow> i = j"
    using inv unfolding menu_inv_def by (metis option.inject)
  have opened: "\<forall>li. is_open (openItem li s) = (\<lambda>i. i = li) \<and> timers (openItem li s) = Map.empty"
    using inv by (simp add: is_open_openItem timers_openItem)
  have entered: "\<forall>li. desktop s \<longrightarrow>
      is_open (menu_step (ItemEnter li) s) = (\<lambda>i. i = li)
      \<and> is_open (menu_step (SubmenuEnter li) s) = (\<lambda>i. i = li)"
    using inv by (simp add: is_open_openItem menu_inv_clearCloseTimer)
  from one opened entered show ?thesis
    unfolding s_def by blast
qed


theorem at_most_one_open_witness:
  "desktop (menu_run [ItemEnter 1] (menu_init (\<lambda>_. True) True 0 0))
   \<and> is_open (menu_run [ItemEnter 1] (menu_init (\<lambda>_. True) True 0 0)) 1
   \<and> is_open (menu_step (ItemEnter 2) (menu_run [ItemEnter 1] (menu_init (\<lambda>_. True) True 0 0)))
      = (\<lambda>i. i = 2)"
proof -
  let ?s = "menu_run [ItemEnter 1] (menu_init (\<lambda>_. True) True 0 0)"
  have d: "desktop ?s"
    by (simp add: menu_run_def menu_init_def setupDesktopMenus_def menu_defs)
  have o: "is_open ?s 1"
    by (simp add: menu_run_def menu_init_def setupDesktopMenus_def menu_defs)
  from at_most_one_open [of "[ItemEnter 1]" "\<lambda>_. True" True 0 0] d
  have "is_open (menu_step (ItemEnter 2) ?s) = (\<lambda>i. i = 2)"
    by blast
  with d o show ?thesis by blast
qed


lemma clearCloseTimer_fields:
  "is_open (clearCloseTimer s) = is_open s" "active (clearCloseTimer s) = active s"
  "now (clearCloseTimer s) = now s" "next_timer (clearCloseTimer s) = next_timer s"
  by (simp_all add: clearCloseTimer_def clearTimeout_def split: option.splits)

lemma closeActive_False_fields:
  "is_open (closeActive False s) = is_open s" "active (closeActive False s) = active s"
  "now (closeActive False s) = now s" "desktop (closeActive False s) = desktop s"
  "closeTimer (closeActive False s) = Some (next_timer s)"
  by (simp_all add: closeActive_def setTimeout_def Let_def clearCloseTimer_fields
      desktop_clearCloseTimer)

lemma timers_closeActive_False:
  "menu_inv s \<Longrightarrow> timers (closeActive False s) = [next_timer s \<mapsto> now s + 120]"
  by (simp add: closeActive_def setTimeout_def Let_def clearCloseTimer_fields
      timers_clearCloseTimer)

lemma timers_closeActive_True: "menu_inv s \<Longrightarrow> timers (closeActive True s) = Map.empty"
  using timers_clearCloseTimer [of s]
  by (simp add: closeActive_def doClose_def Let_def split: option.splits)

lemma dom_timers_inv:
  assumes "menu_inv s"
  shows "finite (dom (timers s))" and "card (dom (timers s)) \<le> 1"
proof -
  from assms have sub: "dom (timers s) \<subseteq> set_option (closeTimer s)"
    by (auto simp: menu_inv_def)
  have fin: "finite (set_option (closeTimer s))"
    by (cases "closeTimer s") simp_all
  have "card (set_option (closeTimer s)) \<le> 1"
    by (cases "closeTimer s") simp_all
  with sub fin show "card (dom (timers s)) \<le> 1"
    by (meson card_mono le_trans)
  from sub fin show "finite (dom (timers s))"
    by (rule finite_subset)
qed

text \<open>
  C4: after every sequence of events from the loaded page, at most one timeout is pending;
  \<open>clearCloseTimer\<close>, with which \<open>closeActive\<close> and \<open>openItem\<close> begin, leaves none
  pending, so scheduling a deferred close leaves exactly the new timeout pending, and an
  immediate close and opening an item leave none.
\<close>

theorem at_most_one_timer:
  "finite (dom (timers (menu_run evs (menu_init markup m t0 k))))
   \<and> card (dom (timers (menu_run evs (menu_init markup m t0 k)))) \<le> 1
   \<and> timers (clearCloseTimer (menu_run evs (menu_init markup m t0 k))) = Map.empty
   \<and> timers (closeActive False (menu_run evs (menu_init markup m t0 k)))
       = [next_timer (menu_run evs (menu_init markup m t0 k))
            \<mapsto> now (menu_run evs (menu_init markup m t0 k)) + 120]
   \<and> timers (closeActive True (menu_run evs (menu_init markup m t0 k))) = Map.empty
   \<and> timers (openItem li (menu_run evs (menu_init markup m t0 k))) = Map.empty"
  using menu_inv_reachable [of evs markup m t0 k]
  by (intro conjI dom_timers_inv timers_clearCloseTimer timers_closeActive_False
      timers_closeActive_True timers_openItem)

lemma open_imp_desktop: "menu_inv s \<Longrightarrow> is_open s li \<Longrightarrow> desktop s \<and> active s = Some li"
  by (auto simp: menu_inv_def)

lemma closeActive_False_eq:
  "menu_inv s \<Longrightarrow>
   closeActive False s
     = s\<lparr>closeTimer := Some (next_timer s), timers := [next_timer s \<mapsto> now s + 120],
         next_timer := Suc (next_timer s)\<rparr>"
  using timers_closeActive_False [of s]
  by (simp add: closeActive_def setTimeout_def Let_def clearCloseTimer_def clearTimeout_def
      split: option.splits)


lemma clearCloseTimer_eq:
  assumes "menu_inv s"
  shows "clearCloseTimer s = s\<lparr>closeTimer := None, timers := Map.empty\<rparr>"
proof (cases "closeTimer s")
  case None
  with assms have "timers s = Map.empty"
    by (auto simp: menu_inv_def fun_eq_iff)
  with None show ?thesis
    by (simp add: clearCloseTimer_def)
next
  case (Some t)
  with assms have "t \<noteq> 0" and "(timers s)(t := None) = Map.empty"
    by (auto simp: menu_inv_def fun_eq_iff)
  with Some show ?thesis
    by (simp add: clearCloseTimer_def clearTimeout_def)
qed

lemma fire_after_leave:
  assumes inv: "menu_inv s" and dk: "desktop s" and act: "active s = Some li"
  defines "s' \<equiv> menu_step (ItemLeave li False) s"
  shows "timers s' = [next_timer s \<mapsto> now s + 120]"
    and "closeTimer s' = Some (next_timer s)"
    and "is_open s' = is_open s"
    and "active s' = Some li"
    and "d < 120 \<Longrightarrow>
           menu_step (TimerFires (next_timer s)) (menu_step (Elapse d) s') = menu_step (Elapse d) s'"
    and "120 \<le> d \<Longrightarrow>
           \<not> is_open (menu_step (TimerFires (next_timer s)) (menu_step (Elapse d) s')) li"
    and "120 \<le> d \<Longrightarrow>
           active (menu_step (TimerFires (next_timer s)) (menu_step (Elapse d) s')) = None"
    and "120 \<le> d \<Longrightarrow>
           timers (menu_step (TimerFires (next_timer s)) (menu_step (Elapse d) s')) = Map.empty"
proof -
  have eq: "s' = s\<lparr>closeTimer := Some (next_timer s), timers := [next_timer s \<mapsto> now s + 120],
         next_timer := Suc (next_timer s)\<rparr>"
    unfolding s'_def using dk closeActive_False_eq [OF inv] by simp
  show "timers s' = [next_timer s \<mapsto> now s + 120]" "closeTimer s' = Some (next_timer s)"
    "is_open s' = is_open s" "active s' = Some li"
    by (simp_all add: eq act)
  show "menu_step (TimerFires (next_timer s)) (menu_step (Elapse d) s') = menu_step (Elapse d) s'"
    if "d < 120"
    using that by (simp add: eq)
  show "\<not> is_open (menu_step (TimerFires (next_timer s)) (menu_step (Elapse d) s')) li"
    if "120 \<le> d"
    using that by (simp add: eq act doClose_def)
  show "active (menu_step (TimerFires (next_timer s)) (menu_step (Elapse d) s')) = None"
    if "120 \<le> d"
    using that by (simp add: eq act doClose_def)
  show "timers (menu_step (TimerFires (next_timer s)) (menu_step (Elapse d) s')) = Map.empty"
    if "120 \<le> d"
    using that by (simp add: eq act doClose_def)
qed

lemma reenter_after_leave:
  fixes d0 :: nat
  assumes inv: "menu_inv s" and dk: "desktop s" and act: "active s = Some li"
    and op: "is_open s li"
    and re: "re = ItemEnter li \<or> re = SubmenuEnter li"
  defines "r \<equiv> menu_step re (menu_step (Elapse d0) (menu_step (ItemLeave li False) s))"
  shows "timers r = Map.empty" and "is_open r li"
    and "menu_step (TimerFires u) (menu_step (Elapse d) r) = menu_step (Elapse d) r"
proof -
  let ?s' = "menu_step (Elapse d0) (menu_step (ItemLeave li False) s)"
  have inv': "menu_inv ?s'"
    by (intro menu_inv_step inv)
  have dk': "desktop ?s'" and act': "active ?s' = Some li"
    using dk act by (simp_all add: closeActive_False_fields)
  have inv'': "menu_inv (clearCloseTimer ?s')"
    by (rule menu_inv_clearCloseTimer [OF inv'])
  have act'': "active (clearCloseTimer ?s') = Some li"
    using act' by (simp add: clearCloseTimer_fields)
  have r_eq: "r = openItem li ?s' \<or> r = openItem li (clearCloseTimer ?s')"
    unfolding r_def using re dk' by auto
  then show "timers r = Map.empty"
    using timers_openItem [OF inv'] timers_openItem [OF inv''] by auto
  from r_eq show "is_open r li"
    using is_open_openItem [OF inv'] is_open_openItem [OF inv''] by auto
  from \<open>timers r = Map.empty\<close>
  show "menu_step (TimerFires u) (menu_step (Elapse d) r) = menu_step (Elapse d) r"
    by simp
qed


text \<open>
  C7: in every state reached from the loaded page in which item \<open>li\<close> is open, the pointer
  leaving \<open>li\<close> into its own submenu changes nothing; leaving it to anywhere else schedules
  one timeout, due 120 milliseconds later, and leaves the item open; that timeout cannot run
  before the 120 milliseconds have passed, and when it runs it closes the item and clears
  \<open>active\<close>; if the pointer enters the item or its submenu before it runs, no timeout is
  pending any more, the item is open, and no timeout ever fires.
\<close>

theorem leave_item_deferred_close:
  "let s = menu_run evs (menu_init markup m t0 k);
       s' = menu_step (ItemLeave li False) s;
       t = next_timer s
   in is_open s li \<longrightarrow>
        menu_step (ItemLeave li True) s = s
        \<and> timers s' = [t \<mapsto> now s + 120] \<and> closeTimer s' = Some t
        \<and> is_open s' = is_open s \<and> active s' = Some li
        \<and> (\<forall>d. d < 120 \<longrightarrow>
              menu_step (TimerFires t) (menu_step (Elapse d) s') = menu_step (Elapse d) s')
        \<and> (\<forall>d. 120 \<le> d \<longrightarrow>
              \<not> is_open (menu_step (TimerFires t) (menu_step (Elapse d) s')) li
              \<and> active (menu_step (TimerFires t) (menu_step (Elapse d) s')) = None
              \<and> timers (menu_step (TimerFires t) (menu_step (Elapse d) s')) = Map.empty)
        \<and> (\<forall>re d0 d u. re = ItemEnter li \<or> re = SubmenuEnter li \<longrightarrow>
              timers (menu_step re (menu_step (Elapse d0) s')) = Map.empty
              \<and> is_open (menu_step re (menu_step (Elapse d0) s')) li
              \<and> menu_step (TimerFires u)
                    (menu_step (Elapse d) (menu_step re (menu_step (Elapse d0) s')))
                  = menu_step (Elapse d) (menu_step re (menu_step (Elapse d0) s')))"
proof -
  define s where "s = menu_run evs (menu_init markup m t0 k)"
  have inv: "menu_inv s"
    unfolding s_def by (rule menu_inv_reachable)
  have "menu_step (ItemLeave li True) s = s
        \<and> timers (menu_step (ItemLeave li False) s) = [next_timer s \<mapsto> now s + 120]
        \<and> closeTimer (menu_step (ItemLeave li False) s) = Some (next_timer s)
        \<and> is_open (menu_step (ItemLeave li False) s) = is_open s
        \<and> active (menu_step (ItemLeave li False) s) = Some li
        \<and> (\<forall>d. d < 120 \<longrightarrow>
              menu_step (TimerFires (next_timer s))
                (menu_step (Elapse d) (menu_step (ItemLeave li False) s))
              = menu_step (Elapse d) (menu_step (ItemLeave li False) s))
        \<and> (\<forall>d. 120 \<le> d \<longrightarrow>
              \<not> is_open (menu_step (TimerFires (next_timer s))
                    (menu_step (Elapse d) (menu_step (ItemLeave li False) s))) li
              \<and> active (menu_step (TimerFires (next_timer s))
                    (menu_step (Elapse d) (menu_step (ItemLeave li False) s))) = None
              \<and> timers (menu_step (TimerFires (next_timer s))
                    (menu_step (Elapse d) (menu_step (ItemLeave li False) s))) = Map.empty)
        \<and> (\<forall>re d0 d u. re = ItemEnter li \<or> re = SubmenuEnter li \<longrightarrow>
              timers (menu_step re (menu_step (Elapse d0) (menu_step (ItemLeave li False) s)))
                = Map.empty
              \<and> is_open (menu_step re (menu_step (Elapse d0) (menu_step (ItemLeave li False) s))) li
              \<and> menu_step (TimerFires u)
                    (menu_step (Elapse d)
                      (menu_step re (menu_step (Elapse d0) (menu_step (ItemLeave li False) s))))
                  = menu_step (Elapse d)
                      (menu_step re (menu_step (Elapse d0) (menu_step (ItemLeave li False) s))))"
    if op: "is_open s li"
  proof -
    from open_imp_desktop [OF inv op] have dk: "desktop s" and act: "active s = Some li"
      by simp_all
    note fire = fire_after_leave [OF inv dk act]
    note again = reenter_after_leave [OF inv dk act op]
    show ?thesis
      by (intro conjI allI impI fire again) simp_all
  qed
  then show ?thesis
    unfolding s_def Let_def by blast
qed

theorem leave_item_deferred_close_witness:
  "is_open (menu_run [ItemEnter 1] (menu_init (\<lambda>_. False) True 0 0)) 1
   \<and> timers (menu_step (ItemLeave 1 False) (menu_run [ItemEnter 1] (menu_init (\<lambda>_. False) True 0 0)))
       = [1 \<mapsto> 120]
   \<and> menu_step (TimerFires 1) (menu_step (Elapse 119)
        (menu_step (ItemLeave 1 False) (menu_run [ItemEnter 1] (menu_init (\<lambda>_. False) True 0 0))))
       = menu_step (Elapse 119)
        (menu_step (ItemLeave 1 False) (menu_run [ItemEnter 1] (menu_init (\<lambda>_. False) True 0 0)))
   \<and> \<not> is_open (menu_step (TimerFires 1) (menu_step (Elapse 120)
        (menu_step (ItemLeave 1 False) (menu_run [ItemEnter 1] (menu_init (\<lambda>_. False) True 0 0))))) 1
   \<and> is_open (menu_step (ItemEnter 1) (menu_step (Elapse 50)
        (menu_step (ItemLeave 1 False) (menu_run [ItemEnter 1] (menu_init (\<lambda>_. False) True 0 0))))) 1"
proof -
  let ?s = "menu_run [ItemEnter 1] (menu_init (\<lambda>_. False) True 0 0)"
  have o: "is_open ?s 1"
    by (simp add: menu_run_def menu_init_def setupDesktopMenus_def menu_defs)
  have n: "next_timer ?s = 1" "now ?s = 0"
    by (simp_all add: menu_run_def menu_init_def setupDesktopMenus_def menu_defs)
  have less: "(119::nat) < 120" and more: "(120::nat) \<le> 120"
    by simp_all
  from leave_item_deferred_close [of "[ItemEnter 1]" "\<lambda>_. False" True 0 0 1] o less more
  show ?thesis
    unfolding Let_def n by (metis add_0)
qed

end
